theory Spec2Isabelle
  imports Main "HOL-Library.Word" "HOL-Library.Log_Nat"
begin

chapter \<open>CUBE compiler: storage allocation, source-map lookup, URL source sharing\<close>

section \<open>Variable mapper (core/cube/varmapper.ts)\<close>

text \<open>
  \<^verbatim>\<open>VarLocation\<close> is the two-valued enumeration of the source; a \<^verbatim>\<open>VarMapping\<close> has a
  location and an optional RAM address (\<^verbatim>\<open>ramAddr?: number\<close>). Addresses and counts are
  JavaScript numbers, that is IEEE 754 doubles; the model has the integer-valued ones, as
  \<open>int\<close>, and rounds where the source's arithmetic rounds.
\<close>

datatype VarLocation = RAM | STACK

record VarMapping =
  location :: VarLocation
  ramAddr :: "int option"

text \<open>
  \<^verbatim>\<open>VariableMap.vars\<close> is a JavaScript \<^verbatim>\<open>Map<string, VarMapping>\<close>; only lookups and
  \<^verbatim>\<open>set\<close> are used, so it is a partial function from names to mappings.
\<close>

record VariableMap =
  vars :: "string \<rightharpoonup> VarMapping"
  nextRamAddr :: int
  nextFieldAddr :: int

text \<open>\<^verbatim>\<open>s.startsWith(p)\<close>: the first \<open>length p\<close> characters of \<open>s\<close> are \<open>p\<close>.\<close>

definition startsWith :: "string \<Rightarrow> string \<Rightarrow> bool" where
  "startsWith s p = (take (length p) s = p)"

text \<open>
  The \<^verbatim>\<open>for (const name of variableNames)\<close> loop of \<^verbatim>\<open>mapVariables\<close>. A JavaScript
  \<^verbatim>\<open>Set\<close> is iterated in insertion order and holds no element twice, so the input is the
  list of its elements in that order. The loop state is the map under construction and
  the counter \<^verbatim>\<open>nextRamAddr\<close>; each \<^verbatim>\<open>continue\<close> goes on with the state unchanged.
\<close>

fun mapVariables_loop ::
  "string list \<Rightarrow> (string \<rightharpoonup> VarMapping) \<Rightarrow> int \<Rightarrow> (string \<rightharpoonup> VarMapping) \<times> int" where
  "mapVariables_loop [] vs nxt = (vs, nxt)"
| "mapVariables_loop (name # rest) vs nxt =
     (if startsWith name ''_'' then mapVariables_loop rest vs nxt
      else if name = ''coord'' then mapVariables_loop rest vs nxt
      else mapVariables_loop rest
             (vs(name \<mapsto> \<lparr>location = RAM, ramAddr = Some nxt\<rparr>)) (nxt - 1))"

definition mapVariables :: "string list \<Rightarrow> VariableMap" where
  "mapVariables variableNames =
     (case mapVariables_loop variableNames Map.empty 0x3F of
        (vs, nxt) \<Rightarrow> \<lparr>vars = vs, nextRamAddr = nxt, nextFieldAddr = 0x20\<rparr>)"

text \<open>
  The sum of two doubles is the exact sum rounded to the nearest double, ties to the
  even significand. For an integer \<open>x\<close> that is: keep the 53 leading bits of \<open>\<bar>x\<bar>\<close> and
  round at the unit of the last kept bit, \<open>ulp = 2 ^ (bitlen \<bar>x\<bar> - 53)\<close> (1 when \<open>\<bar>x\<bar>\<close> has
  at most 53 bits, so that nothing is rounded). Integers of magnitude up to \<open>2 ^ 53\<close> are
  unchanged. The model ends where doubles end: for a magnitude of \<open>2 ^ 1024\<close> or more the
  source has \<^verbatim>\<open>Infinity\<close>, which is no integer.
\<close>

definition roundToDouble :: "int \<Rightarrow> int" where
  "roundToDouble x =
     (let e = nat (bitlen \<bar>x\<bar> - 53);
          ulp = 2 ^ e;
          q = \<bar>x\<bar> div ulp;
          r = \<bar>x\<bar> mod ulp;
          m = (if 2 * r < ulp \<or> (2 * r = ulp \<and> even q) then q else q + 1)
      in sgn x * (m * ulp))"

text \<open>
  In \<^verbatim>\<open>mapVariables\<close> the counter only steps down from \<open>0x3F\<close>, once per name, so its
  decrement is exact and is written as integer subtraction. In \<^verbatim>\<open>allocateFields\<close> the
  count is the caller's, and \<^verbatim>\<open>varMap.nextFieldAddr += count\<close> is the rounded sum.
\<close>

text \<open>
  \<^verbatim>\<open>allocateFields\<close> mutates its argument and returns the base address; the model returns
  the base together with the updated map. The source has no \<^verbatim>\<open>throw\<close> and no bounds
  test, so neither function has an error result.
\<close>

definition allocateFields :: "VariableMap \<Rightarrow> int \<Rightarrow> int \<times> VariableMap" where
  "allocateFields varMap count =
     (let base = nextFieldAddr varMap
      in (base, varMap\<lparr>nextFieldAddr := roundToDouble (nextFieldAddr varMap + count)\<rparr>))"

text \<open>
  A compilation calls \<^verbatim>\<open>allocateFields\<close> once per field-bearing construction, always on
  the same \<^verbatim>\<open>VariableMap\<close> object: the calls in order, with the list of the bases they
  return and the final map.
\<close>

fun allocateFields_calls :: "VariableMap \<Rightarrow> int list \<Rightarrow> int list \<times> VariableMap" where
  "allocateFields_calls varMap [] = ([], varMap)"
| "allocateFields_calls varMap (count # counts) =
     (case allocateFields varMap count of
        (base, varMap') \<Rightarrow>
          (case allocateFields_calls varMap' counts of
             (bases, varMap'') \<Rightarrow> (base # bases, varMap'')))"

text \<open>The names the loop passes over: its two \<^verbatim>\<open>continue\<close> guards taken together.\<close>

definition skipped :: "string \<Rightarrow> bool" where
  "skipped name = (startsWith name ''_'' \<or> name = ''coord'')"


section \<open>Source-map lookup (ui/detail/NodeDetailPanel.tsx)\<close>

text \<open>
  A \<^verbatim>\<open>SourceMapEntry\<close> has the instruction address, a label and the source line (the
  fields the panel reads: \<^verbatim>\<open>addr\<close>, \<^verbatim>\<open>label\<close>, \<^verbatim>\<open>line\<close>). The program counter
  \<^verbatim>\<open>node.registers.P\<close> and the addresses are integers.
\<close>

record SourceMapEntry =
  addr :: int
  label :: string
  line :: int

text \<open>
  The loop of \<^verbatim>\<open>findCubeLocation\<close>, with \<^verbatim>\<open>best\<close> as its state; \<^verbatim>\<open>null\<close> is \<open>None\<close>.
  \<^verbatim>\<open>!best\<close> holds exactly when \<^verbatim>\<open>best\<close> is still \<^verbatim>\<open>null\<close>.
\<close>

fun findCubeLocation_loop ::
  "SourceMapEntry list \<Rightarrow> int \<Rightarrow> SourceMapEntry option \<Rightarrow> SourceMapEntry option" where
  "findCubeLocation_loop [] pc best = best"
| "findCubeLocation_loop (entry # rest) pc best =
     (if addr entry \<le> pc then
        (if (case best of None \<Rightarrow> True | Some b \<Rightarrow> addr entry > addr b)
         then findCubeLocation_loop rest pc (Some entry)
         else findCubeLocation_loop rest pc best)
      else findCubeLocation_loop rest pc best)"

definition findCubeLocation :: "SourceMapEntry list \<Rightarrow> int \<Rightarrow> SourceMapEntry option" where
  "findCubeLocation sourceMap pc = findCubeLocation_loop sourceMap pc None"


section \<open>URL source sharing (ui/urlSource.ts)\<close>

text \<open>
  A \<^verbatim>\<open>Uint8Array\<close> is a list of 8-bit words. The strings of this module are either
  base64 text or the "binary string" handed to \<^verbatim>\<open>btoa\<close> and returned by \<^verbatim>\<open>atob\<close>, whose
  code units all lie in 0..255: they are modelled as \<open>string\<close>, a list of 8-bit characters,
  with \<^verbatim>\<open>String.fromCharCode\<close> as \<open>char_of\<close> and \<^verbatim>\<open>charCodeAt\<close> as \<open>of_char\<close>.
\<close>

text \<open>The exception that \<^verbatim>\<open>atob\<close> throws on text that is not base64.\<close>

datatype error = InvalidCharacterError

subsection \<open>The platform functions \<^verbatim>\<open>btoa\<close> and \<^verbatim>\<open>atob\<close>\<close>

text \<open>
  \<^verbatim>\<open>btoa\<close> and \<^verbatim>\<open>atob\<close> belong to the browser, not to this repository. They are written
  out here as the HTML standard defines them: base64 of RFC 4648 section 4 with padding
  for \<^verbatim>\<open>btoa\<close>, and the "forgiving-base64 decode" for \<^verbatim>\<open>atob\<close>.
\<close>

text \<open>
  The base64 alphabet; a 6-bit value is encoded by the character at its index. The
  encoder below is applied to octets (values below 256) only, so every index it forms is
  below 64.
\<close>

definition b64chars :: string where
  "b64chars = ''ABCDEFGHIJKLMNOPQRSTUVWXYZabcdefghijklmnopqrstuvwxyz0123456789+/''"

definition b64enc :: "nat \<Rightarrow> char" where
  "b64enc i = b64chars ! i"

definition b64dec :: "char \<Rightarrow> nat option" where
  "b64dec c = map_of (zip b64chars [0 ..< 64]) c"

text \<open>
  Encoding: three octets give four characters; a last group of two octets gives three
  characters and one \<open>=\<close>, a last single octet two characters and \<open>==\<close>.
\<close>

fun encode_octets :: "nat list \<Rightarrow> string" where
  "encode_octets (a # b # c # rest) =
     b64enc (a div 4) # b64enc ((a mod 4) * 16 + b div 16)
       # b64enc ((b mod 16) * 4 + c div 64) # b64enc (c mod 64) # encode_octets rest"
| "encode_octets [a, b] =
     [b64enc (a div 4), b64enc ((a mod 4) * 16 + b div 16), b64enc ((b mod 16) * 4), CHR ''='']"
| "encode_octets [a] =
     [b64enc (a div 4), b64enc ((a mod 4) * 16), CHR ''='', CHR ''='']"
| "encode_octets [] = []"

text \<open>
  \<^verbatim>\<open>btoa\<close> throws only for a code unit above 255, which the string type excludes.
\<close>

definition btoa :: "string \<Rightarrow> string" where
  "btoa data = encode_octets (map of_char data)"

text \<open>
  Forgiving-base64 decode. (1) ASCII whitespace is removed. (2) If the length is a
  multiple of four, one or two trailing \<open>=\<close> are removed. (3) A length of 1 modulo 4
  fails. (4) A character outside the alphabet fails. (5) Each four characters give
  three octets; two remaining characters give one octet, three give two. (A single
  remaining character cannot occur after step 3.)
\<close>

definition ascii_whitespace :: "char \<Rightarrow> bool" where
  "ascii_whitespace c = (c \<in> {CHR 0x09, CHR 0x0A, CHR 0x0C, CHR 0x0D, CHR 0x20})"

definition strip_padding :: "string \<Rightarrow> string" where
  "strip_padding data =
     (case rev data of
        c # d # r \<Rightarrow> if c = CHR ''='' \<and> d = CHR ''='' then rev r
                     else if c = CHR ''='' then rev (d # r) else data
      | [c] \<Rightarrow> if c = CHR ''='' then [] else data
      | [] \<Rightarrow> data)"

fun decode_sextets :: "nat list \<Rightarrow> string" where
  "decode_sextets (p # q # r # s # rest) =
     char_of (p * 4 + q div 16) # char_of ((q mod 16) * 16 + r div 4)
       # char_of ((r mod 4) * 64 + s) # decode_sextets rest"
| "decode_sextets [p, q, r] = [char_of (p * 4 + q div 16), char_of ((q mod 16) * 16 + r div 4)]"
| "decode_sextets [p, q] = [char_of (p * 4 + q div 16)]"
| "decode_sextets [p] = []"
| "decode_sextets [] = []"

definition atob :: "string \<Rightarrow> error + string" where
  "atob data =
     (let data1 = filter (\<lambda>c. \<not> ascii_whitespace c) data;
          data2 = (if length data1 mod 4 = 0 then strip_padding data1 else data1)
      in if length data2 mod 4 = 1 then Inl InvalidCharacterError
         else (case those (map b64dec data2) of
                 None \<Rightarrow> Inl InvalidCharacterError
               | Some sextets \<Rightarrow> Inr (decode_sextets sextets)))"

subsection \<open>\<^verbatim>\<open>toBase64url\<close> and \<^verbatim>\<open>fromBase64url\<close>\<close>

text \<open>
  \<^verbatim>\<open>s.replace(/c/g, d)\<close> for a single character \<open>c\<close>, and \<^verbatim>\<open>s.replace(/=+$/, '')\<close>,
  which removes the whole run of \<open>=\<close> at the end of the string.
\<close>

definition replace_all :: "char \<Rightarrow> char \<Rightarrow> string \<Rightarrow> string" where
  "replace_all c d s = map (\<lambda>x. if x = c then d else x) s"

definition strip_trailing_eq :: "string \<Rightarrow> string" where
  "strip_trailing_eq s = rev (dropWhile (\<lambda>c. c = CHR ''='') (rev s))"

text \<open>The loop \<^verbatim>\<open>binary += String.fromCharCode(bytes[i])\<close>, then the chain of replacements.\<close>

fun toBase64url_loop :: "8 word list \<Rightarrow> string \<Rightarrow> string" where
  "toBase64url_loop [] binary = binary"
| "toBase64url_loop (b # bytes) binary = toBase64url_loop bytes (binary @ [char_of (unat b)])"

definition toBase64url :: "8 word list \<Rightarrow> string" where
  "toBase64url bytes =
     strip_trailing_eq
       (replace_all (CHR ''/'') (CHR ''_'')
          (replace_all (CHR ''+'') (CHR ''-'') (btoa (toBase64url_loop bytes []))))"

text \<open>The loop \<^verbatim>\<open>while (b64.length % 4 !== 0) b64 += '='\<close>; it stops after at most three steps.\<close>

function add_padding :: "string \<Rightarrow> string" where
  "add_padding b64 = (if length b64 mod 4 \<noteq> 0 then add_padding (b64 @ ''='') else b64)"
  by pat_completeness auto
termination
proof (relation "measure (\<lambda>s. (4 - length s mod 4) mod 4)")
  show "wf (measure (\<lambda>s::string. (4 - length s mod 4) mod 4))" by simp
next
  fix b64 :: string
  assume "length b64 mod 4 \<noteq> 0"
  moreover have "length b64 mod 4 < 4" by simp
  ultimately have "length b64 mod 4 = 1 \<or> length b64 mod 4 = 2 \<or> length b64 mod 4 = 3"
    by linarith
  moreover have "Suc (length b64) mod 4 = Suc (length b64 mod 4) mod 4"
    by (simp only: mod_Suc_eq)
  ultimately have "(4 - Suc (length b64) mod 4) mod 4 < (4 - length b64 mod 4) mod 4"
    by (elim disjE) simp_all
  then show "(b64 @ ''='', b64) \<in> measure (\<lambda>s. (4 - length s mod 4) mod 4)"
    by simp
qed

text \<open>
  The loop \<^verbatim>\<open>bytes[i] = binary.charCodeAt(i)\<close>; storing into a \<^verbatim>\<open>Uint8Array\<close> keeps the
  low eight bits. An exception of \<^verbatim>\<open>atob\<close> is not caught in \<^verbatim>\<open>fromBase64url\<close>.
\<close>

fun fromBase64url_loop :: "string \<Rightarrow> 8 word list" where
  "fromBase64url_loop [] = []"
| "fromBase64url_loop (c # binary) = word_of_nat (of_char c) # fromBase64url_loop binary"

definition fromBase64url :: "string \<Rightarrow> error + 8 word list" where
  "fromBase64url str =
     (let b64 = replace_all (CHR ''_'') (CHR ''/'') (replace_all (CHR ''-'') (CHR ''+'') str);
          b64' = add_padding b64
      in case atob b64' of
           Inl e \<Rightarrow> Inl e
         | Inr binary \<Rightarrow> Inr (fromBase64url_loop binary))"

text \<open>
  For the proofs: the 6-bit values that \<open>encode_octets\<close> encodes, and the number of
  \<open>=\<close> it appends.
\<close>

fun sextets :: "nat list \<Rightarrow> nat list" where
  "sextets (a # b # c # rest) =
     a div 4 # ((a mod 4) * 16 + b div 16) # ((b mod 16) * 4 + c div 64) # (c mod 64)
       # sextets rest"
| "sextets [a, b] = [a div 4, (a mod 4) * 16 + b div 16, (b mod 16) * 4]"
| "sextets [a] = [a div 4, (a mod 4) * 16]"
| "sextets [] = []"

fun padding :: "nat list \<Rightarrow> nat" where
  "padding (a # b # c # rest) = padding rest"
| "padding [a, b] = 1"
| "padding [a] = 2"
| "padding [] = 0"


section \<open>Properties of the variable mapper\<close>

subsection \<open>The allocation loop\<close>

lemma loop_filter:
  "mapVariables_loop names vs nxt = mapVariables_loop (filter (\<lambda>n. \<not> skipped n) names) vs nxt"
  by (induction names arbitrary: vs nxt) (simp_all add: skipped_def)

lemma loop_snd:
  "snd (mapVariables_loop names vs nxt) = nxt - int (length (filter (\<lambda>n. \<not> skipped n) names))"
  by (induction names arbitrary: vs nxt) (simp_all add: skipped_def)

lemma loop_other:
  "name \<notin> set (filter (\<lambda>n. \<not> skipped n) names) \<Longrightarrow>
   fst (mapVariables_loop names vs nxt) name = vs name"
  by (induction names arbitrary: vs nxt) (auto simp add: skipped_def)

lemma loop_dom:
  "dom (fst (mapVariables_loop names vs nxt)) = dom vs \<union> {n \<in> set names. \<not> skipped n}"
  by (induction names arbitrary: vs nxt) (auto simp add: skipped_def)

lemma loop_nth:
  "distinct names \<Longrightarrow> \<forall>n\<in>set names. \<not> skipped n \<Longrightarrow> i < length names \<Longrightarrow>
   fst (mapVariables_loop names vs nxt) (names ! i)
     = Some \<lparr>location = RAM, ramAddr = Some (nxt - int i)\<rparr>"
proof (induction names arbitrary: vs nxt i)
  case Nil
  then show ?case by simp
next
  case (Cons a names)
  show ?case
  proof (cases i)
    case 0
    have "a \<notin> set (filter (\<lambda>n. \<not> skipped n) names)" using Cons.prems(1) by simp
    then show ?thesis using 0 Cons.prems(2) by (simp add: skipped_def loop_other)
  next
    case (Suc j)
    then show ?thesis using Cons.prems Cons.IH[of j] by (simp add: skipped_def)
  qed
qed

lemma loop_ram:
  "fst (mapVariables_loop names vs nxt) name = Some m \<Longrightarrow>
   vs name = Some m \<or> (location m = RAM \<and> (\<exists>a. ramAddr m = Some a))"
proof (induction names arbitrary: vs nxt)
  case Nil
  then show ?case by simp
next
  case (Cons a names)
  show ?case
  proof (cases "startsWith a ''_'' \<or> a = ''coord''")
    case True
    then have "mapVariables_loop (a # names) vs nxt = mapVariables_loop names vs nxt"
      by (cases "startsWith a ''_''") simp_all
    then show ?thesis using Cons.IH[of vs nxt] Cons.prems by simp
  next
    case False
    then have "fst (mapVariables_loop names
        (vs(a \<mapsto> \<lparr>location = RAM, ramAddr = Some nxt\<rparr>)) (nxt - 1)) name = Some m"
      using Cons.prems by simp
    from Cons.IH[OF this] show ?thesis by (auto split: if_splits)
  qed
qed

subsection \<open>The fields of the returned map\<close>

lemma mapVariables_filter:
  "mapVariables names = mapVariables (filter (\<lambda>n. \<not> skipped n) names)"
  unfolding mapVariables_def using loop_filter[of names Map.empty "0x3F"] by simp

lemma vars_mapVariables:
  "vars (mapVariables names) = fst (mapVariables_loop names Map.empty 0x3F)"
  by (simp add: mapVariables_def case_prod_beta)

lemma nextRamAddr_mapVariables:
  "nextRamAddr (mapVariables names) = 0x3F - int (length (filter (\<lambda>n. \<not> skipped n) names))"
  using loop_snd[of names Map.empty "0x3F"] by (simp add: mapVariables_def case_prod_beta)

lemma nextFieldAddr_mapVariables: "nextFieldAddr (mapVariables names) = 0x20"
  by (simp add: mapVariables_def case_prod_beta)

lemma mapVariables_nth:
  assumes "distinct names" and "i < length (filter (\<lambda>n. \<not> skipped n) names)"
  shows "vars (mapVariables names) (filter (\<lambda>n. \<not> skipped n) names ! i)
           = Some \<lparr>location = RAM, ramAddr = Some (0x3F - int i)\<rparr>"
proof -
  let ?alloc = "filter (\<lambda>n. \<not> skipped n) names"
  have "distinct ?alloc" using assms(1) by simp
  moreover have "\<forall>n\<in>set ?alloc. \<not> skipped n" by simp
  ultimately have "fst (mapVariables_loop ?alloc Map.empty 0x3F) (?alloc ! i)
      = Some \<lparr>location = RAM, ramAddr = Some (0x3F - int i)\<rparr>"
    using assms(2) by (rule loop_nth)
  then show ?thesis
    using loop_filter[of names Map.empty "0x3F"] by (simp add: vars_mapVariables)
qed

lemma dom_mapVariables:
  "dom (vars (mapVariables names)) = set (filter (\<lambda>n. \<not> skipped n) names)"
  by (auto simp add: vars_mapVariables loop_dom)

subsection \<open>Rounding to a double\<close>

lemma roundToDouble_exact:
  assumes "\<bar>x\<bar> \<le> 2 ^ 53"
  shows "roundToDouble x = x"
proof (cases "\<bar>x\<bar> < 2 ^ 53")
  case True
  then have "bitlen \<bar>x\<bar> \<le> 53" by (simp add: bitlen_le_iff_power)
  then have e: "nat (bitlen \<bar>x\<bar> - 53) = 0" by simp
  show ?thesis unfolding roundToDouble_def e Let_def
    by (simp add: mult_sgn_abs)
next
  case False
  with assms have ax: "\<bar>x\<bar> = 2 ^ 53" by simp
  have "bitlen 1 = 1" using compute_bitlen[of 1] by simp
  then have b54: "bitlen (2 ^ 53) = 54" using bitlen_pow2[of 1 53] by simp
  have "sgn x * \<bar>x\<bar> = x" by (simp add: mult_sgn_abs)
  then have "sgn x * 2 ^ 53 = x" unfolding ax .
  then show ?thesis unfolding roundToDouble_def Let_def ax b54 by simp
qed

lemma roundToDouble_large:
  assumes "2 ^ 53 < x"
  shows "2 ^ 53 \<le> roundToDouble x"
proof -
  have pos: "0 < x" using assms by (smt (verit) zero_less_power)
  then have ax: "\<bar>x\<bar> = x" and sg: "sgn x = 1" by simp_all
  from bitlen_bounds[OF pos] have lo: "2 ^ nat (bitlen x - 1) \<le> x" and hi: "x < 2 ^ nat (bitlen x)"
    by simp_all
  have "\<not> bitlen x \<le> 53" using assms by (simp add: bitlen_le_iff_power)
  then have b: "54 \<le> bitlen x" by simp
  define e where "e = nat (bitlen x - 53)"
  have e1: "1 \<le> e" using b by (simp add: e_def)
  have split: "nat (bitlen x - 1) = 52 + e" using b by (simp add: e_def)
  have "(2::int) ^ 52 * 2 ^ e \<le> x" using lo unfolding split by (simp add: power_add)
  then have q: "2 ^ 52 \<le> x div 2 ^ e"
    by (metis div_mult_self_is_m mult.commute zdiv_mono1 zero_less_numeral zero_less_power nonzero_mult_div_cancel_right power_not_zero zero_neq_numeral)
  define q where "q = x div 2 ^ e"
  define m where "m = (if 2 * (x mod 2 ^ e) < 2 ^ e \<or> (2 * (x mod 2 ^ e) = 2 ^ e \<and> even q) then q else q + 1)"
  have mq: "q \<le> m" by (simp add: m_def)
  have r: "roundToDouble x = m * 2 ^ e"
    unfolding roundToDouble_def Let_def ax sg m_def q_def e_def by simp
  have "(2::int) ^ 53 = 2 ^ 52 * 2 ^ 1" by simp
  also have "\<dots> \<le> 2 ^ 52 * 2 ^ e" using e1 by (intro mult_left_mono power_increasing) simp_all
  also have "\<dots> \<le> m * 2 ^ e" using q mq unfolding q_def by (intro mult_right_mono) simp_all
  finally show ?thesis using r by simp
qed

lemma roundToDouble_at_54:
  assumes "2 ^ 53 \<le> x" and "x < 2 ^ 54"
  shows "roundToDouble x
           = (if 2 * (x mod 2) < 2 \<or> (2 * (x mod 2) = 2 \<and> even (x div 2))
              then x div 2 else x div 2 + 1) * 2"
proof -
  have pos: "0 < x" using assms(1) by (smt (verit) zero_less_power)
  then have ax: "\<bar>x\<bar> = x" and sg: "sgn x = 1" by simp_all
  have "bitlen x \<le> 54" using assms(2) by (simp add: bitlen_le_iff_power)
  moreover have "\<not> bitlen x \<le> 53" using assms(1) by (simp add: bitlen_le_iff_power)
  ultimately have e: "nat (bitlen x - 53) = 1" by simp
  show ?thesis unfolding roundToDouble_def Let_def ax sg e by simp
qed

lemma roundToDouble_nonneg:
  assumes "0 \<le> x"
  shows "0 \<le> roundToDouble x"
proof (cases "x \<le> 2 ^ 53")
  case True
  then have "\<bar>x\<bar> \<le> 2 ^ 53" using assms by simp
  then show ?thesis using assms by (simp add: roundToDouble_exact)
next
  case False
  then have "2 ^ 53 < x" by simp
  from roundToDouble_large[OF this] show ?thesis by simp
qed

subsection \<open>Sequences of field allocations\<close>

lemma calls_length: "length (fst (allocateFields_calls vm counts)) = length counts"
  by (induction counts arbitrary: vm) (simp_all add: allocateFields_def case_prod_beta)

lemma calls_vars: "vars (snd (allocateFields_calls vm counts)) = vars vm"
  by (induction counts arbitrary: vm) (simp_all add: allocateFields_def case_prod_beta)

lemma sum_take_nonneg:
  assumes "\<forall>c\<in>set counts. (0::int) \<le> c"
  shows "0 \<le> sum_list (take k counts)"
  using assms by (meson in_set_takeD sum_list_nonneg)

lemma calls_next:
  assumes "0 \<le> nextFieldAddr vm" and "\<forall>c\<in>set counts. 0 \<le> c"
    and "nextFieldAddr vm + sum_list counts \<le> 2 ^ 53"
  shows "nextFieldAddr (snd (allocateFields_calls vm counts)) = nextFieldAddr vm + sum_list counts"
  using assms
proof (induction counts arbitrary: vm)
  case Nil
  then show ?case by simp
next
  case (Cons c counts)
  let ?vm' = "snd (allocateFields vm c)"
  have c: "0 \<le> c" and rest: "\<forall>c\<in>set counts. 0 \<le> c" using Cons.prems(2) by simp_all
  have "0 \<le> sum_list counts" using rest by (simp add: sum_list_nonneg)
  then have "\<bar>nextFieldAddr vm + c\<bar> \<le> 2 ^ 53" using Cons.prems(1,3) c by simp
  then have nf: "nextFieldAddr ?vm' = nextFieldAddr vm + c"
    by (simp add: allocateFields_def roundToDouble_exact)
  have "nextFieldAddr (snd (allocateFields_calls ?vm' counts)) = nextFieldAddr ?vm' + sum_list counts"
    using Cons.prems c rest by (intro Cons.IH) (simp_all add: nf)
  then show ?case by (simp add: nf case_prod_beta)
qed

lemma calls_base:
  assumes "0 \<le> nextFieldAddr vm" and "\<forall>c\<in>set counts. 0 \<le> c" and "k < length counts"
    and "nextFieldAddr vm + sum_list (take k counts) \<le> 2 ^ 53"
  shows "fst (allocateFields_calls vm counts) ! k = nextFieldAddr vm + sum_list (take k counts)"
  using assms
proof (induction counts arbitrary: vm k)
  case Nil
  then show ?case by simp
next
  case (Cons c counts)
  show ?case
  proof (cases k)
    case 0
    then show ?thesis by (simp add: allocateFields_def case_prod_beta)
  next
    case (Suc j)
    let ?vm' = "snd (allocateFields vm c)"
    have c: "0 \<le> c" and rest: "\<forall>c\<in>set counts. 0 \<le> c" using Cons.prems(2) by simp_all
    have j: "j < length counts" using Suc Cons.prems(3) by simp
    have tl: "0 \<le> sum_list (take j counts)" using rest by (rule sum_take_nonneg)
    have bound: "nextFieldAddr vm + c + sum_list (take j counts) \<le> 2 ^ 53"
      using Cons.prems(4) Suc by (simp add: add.assoc)
    then have "\<bar>nextFieldAddr vm + c\<bar> \<le> 2 ^ 53" using Cons.prems(1) c tl by simp
    then have nf: "nextFieldAddr ?vm' = nextFieldAddr vm + c"
      by (simp add: allocateFields_def roundToDouble_exact)
    have "fst (allocateFields_calls ?vm' counts) ! j = nextFieldAddr ?vm' + sum_list (take j counts)"
      using Cons.prems(1) c rest j bound by (intro Cons.IH) (simp_all add: nf)
    then show ?thesis using Suc by (simp add: nf case_prod_beta add.assoc)
  qed
qed

lemma calls_base_lower:
  assumes "0 \<le> nextFieldAddr vm" and "\<forall>c\<in>set counts. 0 \<le> c" and "k < length counts"
  shows "min (nextFieldAddr vm + sum_list (take k counts)) (2 ^ 53)
           \<le> fst (allocateFields_calls vm counts) ! k"
  using assms
proof (induction counts arbitrary: vm k)
  case Nil
  then show ?case by simp
next
  case (Cons c counts)
  show ?case
  proof (cases k)
    case 0
    then show ?thesis by (simp add: allocateFields_def case_prod_beta)
  next
    case (Suc j)
    let ?vm' = "snd (allocateFields vm c)"
    have c: "0 \<le> c" and rest: "\<forall>c\<in>set counts. 0 \<le> c" using Cons.prems(2) by simp_all
    have j: "j < length counts" using Suc Cons.prems(3) by simp
    have tl: "0 \<le> sum_list (take j counts)" using rest by (rule sum_take_nonneg)
    have nf: "nextFieldAddr ?vm' = roundToDouble (nextFieldAddr vm + c)"
      by (simp add: allocateFields_def)
    have sum0: "0 \<le> nextFieldAddr vm + c" using Cons.prems(1) c by simp
    have nn: "0 \<le> nextFieldAddr ?vm'" unfolding nf using sum0 by (rule roundToDouble_nonneg)
    have IH: "min (nextFieldAddr ?vm' + sum_list (take j counts)) (2 ^ 53)
                \<le> fst (allocateFields_calls ?vm' counts) ! j"
      using nn rest j by (rule Cons.IH)
    have "min (nextFieldAddr vm + c + sum_list (take j counts)) (2 ^ 53)
            \<le> min (nextFieldAddr ?vm' + sum_list (take j counts)) (2 ^ 53)"
    proof (cases "nextFieldAddr vm + c \<le> 2 ^ 53")
      case True
      then have "\<bar>nextFieldAddr vm + c\<bar> \<le> 2 ^ 53" using sum0 by simp
      then have "nextFieldAddr ?vm' = nextFieldAddr vm + c"
        unfolding nf by (rule roundToDouble_exact)
      then show ?thesis by simp
    next
      case False
      then have "2 ^ 53 < nextFieldAddr vm + c" by simp
      then have "2 ^ 53 \<le> nextFieldAddr ?vm'" unfolding nf by (rule roundToDouble_large)
      then show ?thesis using tl by simp
    qed
    with IH show ?thesis using Suc by (simp add: case_prod_beta add.assoc)
  qed
qed

lemma sum_take_mono:
  assumes "\<forall>c\<in>set counts. (0::int) \<le> c" and "i \<le> j"
  shows "sum_list (take i counts) \<le> sum_list (take j counts)"
proof -
  have "take j counts = take i counts @ take (j - i) (drop i counts)"
    using assms(2) by (metis le_add_diff_inverse take_add)
  moreover have "0 \<le> sum_list (take (j - i) (drop i counts))"
    using assms(1) by (meson in_set_dropD in_set_takeD sum_list_nonneg)
  ultimately show ?thesis by simp
qed

lemma sum_take_Suc:
  "k < length counts \<Longrightarrow>
   sum_list (take (Suc k) counts) = sum_list (take k counts) + (counts ! k :: int)"
  by (simp add: take_Suc_conv_app_nth)

lemma sum_take_le_total:
  assumes "\<forall>c\<in>set counts. (0::int) \<le> c"
  shows "sum_list (take k counts) \<le> sum_list counts"
  using sum_take_mono[OF assms, of k "length counts"]
  by (cases "k \<le> length counts") simp_all

lemma block_exists:
  assumes "\<forall>c\<in>set counts. (0::int) \<le> c" and "0 \<le> off" and "off < sum_list counts"
  shows "\<exists>k<length counts.
           sum_list (take k counts) \<le> off \<and> off < sum_list (take k counts) + counts ! k"
  using assms
proof (induction counts arbitrary: off)
  case Nil
  then show ?case by simp
next
  case (Cons c counts)
  show ?case
  proof (cases "off < c")
    case True
    then show ?thesis using Cons.prems(2) by (intro exI[of _ 0]) simp
  next
    case False
    then have "0 \<le> off - c" "off - c < sum_list counts" using Cons.prems by simp_all
    moreover have "\<forall>c\<in>set counts. 0 \<le> c" using Cons.prems(1) by simp
    ultimately obtain k where "k < length counts" "sum_list (take k counts) \<le> off - c"
      "off - c < sum_list (take k counts) + counts ! k"
      using Cons.IH by blast
    then show ?thesis by (intro exI[of _ "Suc k"]) simp
  qed
qed


section \<open>Claims about the variable mapper\<close>

text \<open>
  Claim C1. For an input set of variable names (its elements in iteration order, without
  repetition), let the allocated names be those that are not skipped, in the same order.
  Then \<^verbatim>\<open>mapVariables\<close> maps the \<open>i\<close>-th allocated name to RAM address \<open>0x3F - i\<close>, the
  keys of the map are exactly the allocated names, the counter ends at \<open>0x3F - N\<close> for
  \<open>N\<close> allocated names, and two different allocated names never get the same address.
\<close>

theorem mapVariables_addresses:
  assumes "distinct variableNames"
  shows "(\<forall>i < length (filter (\<lambda>n. \<not> skipped n) variableNames).
            vars (mapVariables variableNames) (filter (\<lambda>n. \<not> skipped n) variableNames ! i)
              = Some \<lparr>location = RAM, ramAddr = Some (0x3F - int i)\<rparr>)
       \<and> dom (vars (mapVariables variableNames))
            = set (filter (\<lambda>n. \<not> skipped n) variableNames)
       \<and> nextRamAddr (mapVariables variableNames)
            = 0x3F - int (length (filter (\<lambda>n. \<not> skipped n) variableNames))
       \<and> (\<forall>i < length (filter (\<lambda>n. \<not> skipped n) variableNames).
          \<forall>j < length (filter (\<lambda>n. \<not> skipped n) variableNames). i \<noteq> j \<longrightarrow>
            Option.bind (vars (mapVariables variableNames)
                           (filter (\<lambda>n. \<not> skipped n) variableNames ! i)) ramAddr
              \<noteq> Option.bind (vars (mapVariables variableNames)
                               (filter (\<lambda>n. \<not> skipped n) variableNames ! j)) ramAddr)"
proof -
  let ?alloc = "filter (\<lambda>n. \<not> skipped n) variableNames"
  let ?vm = "mapVariables variableNames"
  have nth: "\<forall>i < length ?alloc.
      vars ?vm (?alloc ! i) = Some \<lparr>location = RAM, ramAddr = Some (0x3F - int i)\<rparr>"
    using mapVariables_nth[OF assms] by blast
  have "\<forall>i < length ?alloc. \<forall>j < length ?alloc. i \<noteq> j \<longrightarrow>
          Option.bind (vars ?vm (?alloc ! i)) ramAddr \<noteq> Option.bind (vars ?vm (?alloc ! j)) ramAddr"
    using nth by simp
  with nth show ?thesis
    using dom_mapVariables[of variableNames] nextRamAddr_mapVariables[of variableNames]
    by blast
qed

theorem mapVariables_addresses_witness:
  "distinct [''n'', ''_t0'', ''coord'', ''nf'']
   \<and> vars (mapVariables [''n'', ''_t0'', ''coord'', ''nf'']) ''n''
        = Some \<lparr>location = RAM, ramAddr = Some 0x3F\<rparr>
   \<and> vars (mapVariables [''n'', ''_t0'', ''coord'', ''nf'']) ''nf''
        = Some \<lparr>location = RAM, ramAddr = Some 0x3E\<rparr>
   \<and> nextRamAddr (mapVariables [''n'', ''_t0'', ''coord'', ''nf'']) = 0x3D"
proof -
  have d: "distinct [''n'', ''_t0'', ''coord'', ''nf'']" by simp
  have f: "filter (\<lambda>n. \<not> skipped n) [''n'', ''_t0'', ''coord'', ''nf''] = [''n'', ''nf'']"
    by (simp add: skipped_def startsWith_def)
  note inst = mapVariables_addresses[OF d, unfolded f]
  from inst have nth: "\<And>i. i < 2 \<Longrightarrow>
      vars (mapVariables [''n'', ''_t0'', ''coord'', ''nf'']) ([''n'', ''nf''] ! i)
        = Some \<lparr>location = RAM, ramAddr = Some (0x3F - int i)\<rparr>"
    by simp
  from inst have nxt: "nextRamAddr (mapVariables [''n'', ''_t0'', ''coord'', ''nf'']) = 0x3D"
    by simp
  show ?thesis using d nth[of 0] nth[of 1] nxt by simp
qed

text \<open>
  Claim C3. A name that begins with \<open>_\<close>, or that is \<open>coord\<close>, gets no storage: it is
  absent from the map returned for any input, and an input set that contains it yields
  the same \<^verbatim>\<open>VariableMap\<close> (same map, same counters) as the input with that name taken
  out, so the name does not advance \<^verbatim>\<open>nextRamAddr\<close>.
\<close>

theorem mapVariables_skips_internal:
  assumes "startsWith name ''_'' \<or> name = ''coord''"
  shows "vars (mapVariables variableNames) name = None
       \<and> mapVariables (before @ name # after) = mapVariables (before @ after)
       \<and> nextRamAddr (mapVariables (before @ name # after))
            = nextRamAddr (mapVariables (before @ after))"
proof -
  have sk: "skipped name" using assms by (simp add: skipped_def)
  then have "name \<notin> dom (vars (mapVariables variableNames))"
    by (simp add: dom_mapVariables)
  then have absent: "vars (mapVariables variableNames) name = None" by blast
  have "filter (\<lambda>n. \<not> skipped n) (before @ name # after)
          = filter (\<lambda>n. \<not> skipped n) (before @ after)"
    using sk by simp
  then have "mapVariables (before @ name # after) = mapVariables (before @ after)"
    using mapVariables_filter[of "before @ name # after"] mapVariables_filter[of "before @ after"]
    by simp
  with absent show ?thesis by simp
qed

theorem mapVariables_skips_internal_witness:
  "(startsWith ''_t0'' ''_'' \<or> ''_t0'' = ''coord'')
   \<and> vars (mapVariables [''n'', ''_t0'', ''nf'']) ''_t0'' = None
   \<and> mapVariables ([''n''] @ ''_t0'' # [''nf'']) = mapVariables ([''n''] @ [''nf''])
   \<and> nextRamAddr (mapVariables ([''n''] @ ''_t0'' # [''nf''])) = 0x3D"
proof -
  have h: "startsWith ''_t0'' ''_'' \<or> ''_t0'' = ''coord''" by (simp add: startsWith_def)
  have n: "nextRamAddr (mapVariables ([''n''] @ [''nf''])) = 0x3D"
    by (simp add: mapVariables_def startsWith_def)
  note inst = mapVariables_skips_internal[OF h, of "[''n'', ''_t0'', ''nf'']" "[''n'']" "[''nf'']"]
  have c1: "vars (mapVariables [''n'', ''_t0'', ''nf'']) ''_t0'' = None"
    using inst by (rule conjunct1)
  have c2: "mapVariables ([''n''] @ ''_t0'' # [''nf'']) = mapVariables ([''n''] @ [''nf''])"
    using inst by (rule conjunct1[OF conjunct2])
  have c3: "nextRamAddr (mapVariables ([''n''] @ ''_t0'' # [''nf''])) = 0x3D"
    using inst n by simp
  show ?thesis by (rule conjI[OF h conjI[OF c1 conjI[OF c2 c3]]])
qed

text \<open>
  Claim C8. Every mapping stored by \<^verbatim>\<open>mapVariables\<close> has location \<open>RAM\<close> (so never
  \<open>STACK\<close>) and a defined \<^verbatim>\<open>ramAddr\<close>; \<^verbatim>\<open>allocateFields\<close>, the only other operation of
  the mapper, leaves \<^verbatim>\<open>vars\<close> as it is, so the same holds after any number of field
  allocations.
\<close>

theorem mapVariables_only_ram:
  "(vars (mapVariables variableNames) name = Some m \<longrightarrow>
      location m = RAM \<and> location m \<noteq> STACK \<and> (\<exists>a. ramAddr m = Some a))
   \<and> vars (snd (allocateFields varMap count)) = vars varMap
   \<and> (vars (snd (allocateFields_calls (mapVariables variableNames) counts)) name = Some m \<longrightarrow>
      location m = RAM \<and> location m \<noteq> STACK \<and> (\<exists>a. ramAddr m = Some a))"
proof -
  have a: "location m = RAM \<and> location m \<noteq> STACK \<and> (\<exists>a. ramAddr m = Some a)"
    if "vars (mapVariables variableNames) name = Some m"
    using loop_ram[of variableNames Map.empty "0x3F" name m] that
    by (simp add: vars_mapVariables)
  have b: "vars (snd (allocateFields varMap count)) = vars varMap"
    by (simp add: allocateFields_def)
  show ?thesis using a b by (simp add: calls_vars)
qed

theorem mapVariables_only_ram_witness:
  "vars (mapVariables [''n'', ''nf'']) ''nf'' = Some \<lparr>location = RAM, ramAddr = Some 0x3E\<rparr>
   \<and> location \<lparr>location = RAM, ramAddr = Some 0x3E\<rparr> = RAM
   \<and> vars (snd (allocateFields_calls (mapVariables [''n'', ''nf'']) [2, 3])) ''nf''
        = Some \<lparr>location = RAM, ramAddr = Some 0x3E\<rparr>"
proof -
  have v: "vars (mapVariables [''n'', ''nf'']) ''nf''
             = Some \<lparr>location = RAM, ramAddr = Some 0x3E\<rparr>"
    by (simp add: mapVariables_def startsWith_def)
  have w: "vars (snd (allocateFields_calls (mapVariables [''n'', ''nf'']) [2, 3])) ''nf''
             = Some \<lparr>location = RAM, ramAddr = Some 0x3E\<rparr>"
    by (simp add: mapVariables_def startsWith_def allocateFields_def)
  show ?thesis
    using v w mapVariables_only_ram[of "[''n'', ''nf'']" "''nf''"
        "\<lparr>location = RAM, ramAddr = Some 0x3E\<rparr>" "mapVariables [''n'', ''nf'']" 2 "[2, 3]"]
    by simp
qed

text \<open>
  Claim C4 says that the \<open>k\<close>-th base is \<open>0x20\<close> plus the sum of the preceding counts and
  that no address is ever reused, for every sequence of calls. The source adds the count
  to \<^verbatim>\<open>nextFieldAddr\<close> as it comes, in double arithmetic. With the counts
  \<open>2 ^ 53 - 1, 1, 1\<close> the second base is \<open>2 ^ 53 + 32\<close>, not \<open>0x20 + (2 ^ 53 - 1)\<close>, and the
  third call returns that same base again: two one-cell blocks at one address. With the
  counts \<open>2, -1, 1\<close> the bases are \<open>0x20, 0x22, 0x21\<close>, and cell \<open>0x21\<close> of the first block
  is handed out a second time.
\<close>

theorem allocateFields_reuse_counterexample:
  "fst (allocateFields_calls (mapVariables [''p'']) [2 ^ 53 - 1, 1, 1])
     = [0x20, 2 ^ 53 + 0x20, 2 ^ 53 + 0x20]
   \<and> fst (allocateFields_calls (mapVariables [''p'']) [2 ^ 53 - 1, 1, 1]) ! 1
        \<noteq> 0x20 + sum_list (take 1 [2 ^ 53 - 1, 1, 1])
   \<and> fst (allocateFields_calls (mapVariables [''p'']) [2, - 1, 1]) = [0x20, 0x22, 0x21]
   \<and> (0x21 :: int) \<in> {0x20 ..< 0x20 + 2} \<inter> {0x21 ..< 0x21 + 1}"
proof -
  have r1: "roundToDouble 9007199254741023 = 9007199254741024"
    by (simp add: roundToDouble_at_54)
  have r2: "roundToDouble 9007199254741025 = 9007199254741024"
    by (simp add: roundToDouble_at_54)
  have r3: "roundToDouble 34 = 34" "roundToDouble 33 = 33"
    by (simp_all add: roundToDouble_exact)
  have big: "fst (allocateFields_calls (mapVariables [''p'']) [2 ^ 53 - 1, 1, 1])
               = [0x20, 2 ^ 53 + 0x20, 2 ^ 53 + 0x20]"
    by (simp add: allocateFields_def case_prod_beta nextFieldAddr_mapVariables r1 r2)
  have neg: "fst (allocateFields_calls (mapVariables [''p'']) [2, - 1, 1]) = [0x20, 0x22, 0x21]"
    by (simp add: allocateFields_def case_prod_beta nextFieldAddr_mapVariables r3)
  have ne: "fst (allocateFields_calls (mapVariables [''p'']) [2 ^ 53 - 1, 1, 1]) ! 1
              \<noteq> 0x20 + sum_list (take 1 [2 ^ 53 - 1, 1, 1])"
    unfolding big by simp
  have cell: "(0x21 :: int) \<in> {0x20 ..< 0x20 + 2} \<inter> {0x21 ..< 0x21 + 1}" by simp
  show ?thesis by (rule conjI[OF big conjI[OF ne conjI[OF neg cell]]])
qed

text \<open>
  Claim C4, as the code has it. On the map returned by \<^verbatim>\<open>mapVariables\<close> the first
  \<^verbatim>\<open>allocateFields\<close> call returns \<open>0x20\<close>, and every call returns the current
  \<^verbatim>\<open>nextFieldAddr\<close> as its base. For a sequence of calls whose counts are cell counts (none
  negative) with \<open>0x20\<close> plus their total at most \<open>2 ^ 53\<close>, where double addition is exact:
  the \<open>k\<close>-th base is \<open>0x20\<close> plus the sum of the preceding counts, every call moves
  \<^verbatim>\<open>nextFieldAddr\<close> on by exactly its count, the counter ends at \<open>0x20\<close> plus the total, and
  the blocks \<open>{base ..< base + count}\<close> of two different calls share no address.
\<close>

theorem allocateFields_contiguous_exact:
  assumes "\<forall>c \<in> set counts. 0 \<le> c" and "0x20 + sum_list counts \<le> 2 ^ 53"
  shows "fst (allocateFields (mapVariables variableNames) count) = 0x20
   \<and> fst (allocateFields varMap count) = nextFieldAddr varMap
   \<and> length (fst (allocateFields_calls (mapVariables variableNames) counts)) = length counts
   \<and> (\<forall>k < length counts.
         fst (allocateFields_calls (mapVariables variableNames) counts) ! k
           = 0x20 + sum_list (take k counts))
   \<and> (\<forall>k < length counts.
         nextFieldAddr (snd (allocateFields_calls (mapVariables variableNames)
                               (take (Suc k) counts)))
           = fst (allocateFields_calls (mapVariables variableNames) counts) ! k + counts ! k)
   \<and> nextFieldAddr (snd (allocateFields_calls (mapVariables variableNames) counts))
        = 0x20 + sum_list counts
   \<and> (\<forall>i < length counts. \<forall>j < length counts. i < j \<longrightarrow>
           {fst (allocateFields_calls (mapVariables variableNames) counts) ! i ..<
              fst (allocateFields_calls (mapVariables variableNames) counts) ! i + counts ! i}
           \<inter> {fst (allocateFields_calls (mapVariables variableNames) counts) ! j ..<
              fst (allocateFields_calls (mapVariables variableNames) counts) ! j + counts ! j}
           = {})"
proof -
  let ?vm = "mapVariables variableNames"
  let ?bases = "fst (allocateFields_calls ?vm counts)"
  have nf: "nextFieldAddr ?vm = 0x20" by (rule nextFieldAddr_mapVariables)
  have first: "fst (allocateFields ?vm count) = 0x20"
    by (simp add: allocateFields_def nf)
  have ret: "fst (allocateFields varMap count) = nextFieldAddr varMap"
    by (simp add: allocateFields_def)
  have len: "length ?bases = length counts" by (rule calls_length)
  have part: "0x20 + sum_list (take k counts) \<le> 2 ^ 53" for k
    using sum_take_le_total[OF assms(1), of k] assms(2) by simp
  have base: "\<forall>k < length counts. ?bases ! k = 0x20 + sum_list (take k counts)"
  proof (intro allI impI)
    fix k assume k: "k < length counts"
    show "?bases ! k = 0x20 + sum_list (take k counts)"
      using calls_base[of ?vm counts k] assms(1) k part[of k] by (simp add: nf)
  qed
  have nxt: "nextFieldAddr (snd (allocateFields_calls ?vm counts)) = 0x20 + sum_list counts"
    using calls_next[of ?vm counts] assms by (simp add: nf)
  have adv: "\<forall>k < length counts.
      nextFieldAddr (snd (allocateFields_calls ?vm (take (Suc k) counts)))
        = ?bases ! k + counts ! k"
  proof (intro allI impI)
    fix k assume k: "k < length counts"
    have nn: "\<forall>c \<in> set (take (Suc k) counts). 0 \<le> c"
      using assms(1) by (meson in_set_takeD)
    have "nextFieldAddr (snd (allocateFields_calls ?vm (take (Suc k) counts)))
            = 0x20 + sum_list (take (Suc k) counts)"
      using calls_next[of ?vm "take (Suc k) counts"] nn part[of "Suc k"] by (simp add: nf)
    then show "nextFieldAddr (snd (allocateFields_calls ?vm (take (Suc k) counts)))
            = ?bases ! k + counts ! k"
      using base k by (simp add: sum_take_Suc)
  qed
  have disj: "{?bases ! i ..< ?bases ! i + counts ! i} \<inter> {?bases ! j ..< ?bases ! j + counts ! j} = {}"
    if i: "i < length counts" and j: "j < length counts" and ij: "i < j" for i j
  proof -
    have "?bases ! i + counts ! i = 0x20 + sum_list (take (Suc i) counts)"
      using base i by (simp add: sum_take_Suc)
    also have "\<dots> \<le> 0x20 + sum_list (take j counts)"
      using sum_take_mono[OF assms(1), of "Suc i" j] ij by simp
    also have "\<dots> = ?bases ! j" using base j by simp
    finally show ?thesis by auto
  qed
  show ?thesis using first ret len base adv nxt disj by blast
qed

theorem allocateFields_contiguous_exact_witness:
  "(0::int) \<le> 2 \<and> (0::int) \<le> 0 \<and> (0::int) \<le> 3
   \<and> (0x20::int) + sum_list [2, 0, 3] \<le> 2 ^ 53
   \<and> fst (allocateFields_calls (mapVariables [''p'']) [2, 0, 3]) ! 0 = 0x20
   \<and> fst (allocateFields_calls (mapVariables [''p'']) [2, 0, 3]) ! 2 = 0x22
   \<and> nextFieldAddr (snd (allocateFields_calls (mapVariables [''p'']) [2, 0, 3])) = 0x25
   \<and> {fst (allocateFields_calls (mapVariables [''p'']) [2, 0, 3]) ! 0 ..<
        fst (allocateFields_calls (mapVariables [''p'']) [2, 0, 3]) ! 0 + [2, 0, 3] ! 0}
      \<inter> {fst (allocateFields_calls (mapVariables [''p'']) [2, 0, 3]) ! 2 ..<
        fst (allocateFields_calls (mapVariables [''p'']) [2, 0, 3]) ! 2 + [2, 0, 3] ! 2} = {}"
proof -
  have h: "\<forall>c \<in> set [2, 0, 3]. (0::int) \<le> c" by simp
  have t: "(0x20::int) + sum_list [2, 0, 3] \<le> 2 ^ 53" by simp
  note inst = allocateFields_contiguous_exact[OF h t, of "[''p'']" 2 "mapVariables [''p'']"]
  from inst have base: "\<forall>k < length [2, 0, 3 :: int].
      fst (allocateFields_calls (mapVariables [''p'']) [2, 0, 3]) ! k
        = 0x20 + sum_list (take k [2, 0, 3])"
    by blast
  from inst have disj: "\<forall>i < length [2, 0, 3 :: int]. \<forall>j < length [2, 0, 3 :: int]. i < j \<longrightarrow>
      {fst (allocateFields_calls (mapVariables [''p'']) [2, 0, 3]) ! i ..<
        fst (allocateFields_calls (mapVariables [''p'']) [2, 0, 3]) ! i + [2, 0, 3] ! i}
      \<inter> {fst (allocateFields_calls (mapVariables [''p'']) [2, 0, 3]) ! j ..<
        fst (allocateFields_calls (mapVariables [''p'']) [2, 0, 3]) ! j + [2, 0, 3] ! j} = {}"
    by blast
  from inst have nxt:
    "nextFieldAddr (snd (allocateFields_calls (mapVariables [''p'']) [2, 0, 3]))
       = 0x20 + sum_list [2, 0, 3]"
    by blast
  have b0: "fst (allocateFields_calls (mapVariables [''p'']) [2, 0, 3]) ! 0 = 0x20"
    using base[rule_format, of 0] by simp
  have b2: "fst (allocateFields_calls (mapVariables [''p'']) [2, 0, 3]) ! 2 = 0x22"
    using base[rule_format, of 2] by (simp add: numeral_2_eq_2)
  have n5: "nextFieldAddr (snd (allocateFields_calls (mapVariables [''p'']) [2, 0, 3])) = 0x25"
    using nxt by simp
  have d02: "{fst (allocateFields_calls (mapVariables [''p'']) [2, 0, 3]) ! 0 ..<
        fst (allocateFields_calls (mapVariables [''p'']) [2, 0, 3]) ! 0 + [2, 0, 3] ! 0}
      \<inter> {fst (allocateFields_calls (mapVariables [''p'']) [2, 0, 3]) ! 2 ..<
        fst (allocateFields_calls (mapVariables [''p'']) [2, 0, 3]) ! 2 + [2, 0, 3] ! 2} = {}"
    by (rule disj[rule_format, of 0 2]) simp_all
  show ?thesis using t b0 b2 n5 d02 by simp
qed

text \<open>
  Claim C2 says that an overlap of the two regions is reported as an allocation error.
  The source has no such test: with one variable and one block of 32 field cells,
  \<^verbatim>\<open>allocateFields\<close> returns base \<open>0x20\<close> and the block \<open>0x20 .. 0x3F\<close> contains the
  address \<open>0x3F\<close> that \<^verbatim>\<open>mapVariables\<close> gave to the variable.
\<close>

theorem allocation_overlap_counterexample:
  "fst (allocateFields (mapVariables [''x'']) 32) = 0x20
   \<and> vars (snd (allocateFields (mapVariables [''x'']) 32)) ''x''
        = Some \<lparr>location = RAM, ramAddr = Some 0x3F\<rparr>
   \<and> nextFieldAddr (snd (allocateFields (mapVariables [''x'']) 32)) = 0x40
   \<and> (0x3F :: int) \<in> {fst (allocateFields (mapVariables [''x'']) 32) ..<
                         fst (allocateFields (mapVariables [''x'']) 32) + 32}"
  by (simp add: allocateFields_def mapVariables_def startsWith_def roundToDouble_exact)

text \<open>
  Claim C2, as the code has it. The allocator makes no overlap test and has no error
  result; keeping the regions apart is left to the caller. For an input set with \<open>N\<close>
  allocated names and field counts, none negative, of total \<open>C\<close>: some variable's RAM
  address lies inside some field block exactly when \<open>N \<ge> 1\<close>, \<open>C \<ge> 1\<close> and \<open>N + C > 32\<close>.
  Within the budget \<open>N + C \<le> 32\<close> the returned addresses never overlap.
\<close>

theorem allocation_overlap_unchecked:
  assumes "distinct variableNames" and "\<forall>c \<in> set counts. 0 \<le> c"
  shows "(\<exists>name m a k.
            vars (snd (allocateFields_calls (mapVariables variableNames) counts)) name = Some m
            \<and> ramAddr m = Some a \<and> k < length counts
            \<and> a \<in> {fst (allocateFields_calls (mapVariables variableNames) counts) ! k ..<
                     fst (allocateFields_calls (mapVariables variableNames) counts) ! k
                       + counts ! k})
         \<longleftrightarrow>
         (1 \<le> length (filter (\<lambda>n. \<not> skipped n) variableNames) \<and> 1 \<le> sum_list counts
          \<and> 32 < int (length (filter (\<lambda>n. \<not> skipped n) variableNames)) + sum_list counts)"
    (is "?overlap \<longleftrightarrow> ?budget")
proof
  let ?alloc = "filter (\<lambda>n. \<not> skipped n) variableNames"
  let ?vm = "mapVariables variableNames"
  let ?bases = "fst (allocateFields_calls ?vm counts)"
  assume ?overlap
  then obtain name m a k where
    v: "vars ?vm name = Some m" and ra: "ramAddr m = Some a" and k: "k < length counts"
    and lo: "?bases ! k \<le> a" and hi: "a < ?bases ! k + counts ! k"
    by (auto simp add: calls_vars)
  from v have "name \<in> dom (vars ?vm)" by blast
  then have "name \<in> set ?alloc" by (simp only: dom_mapVariables)
  then obtain i where i: "i < length ?alloc" and nm: "name = ?alloc ! i"
    by (metis in_set_conv_nth)
  from mapVariables_nth[OF assms(1) i] v nm ra have a: "a = 0x3F - int i" by auto
  have "min (nextFieldAddr ?vm + sum_list (take k counts)) (2 ^ 53) \<le> ?bases ! k"
    using assms(2) k by (intro calls_base_lower) (simp_all add: nextFieldAddr_mapVariables)
  then have "min (0x20 + sum_list (take k counts)) (2 ^ 53) \<le> 0x3F"
    using lo a by (simp add: nextFieldAddr_mapVariables)
  then have small: "0x20 + sum_list (take k counts) \<le> 2 ^ 53" by simp
  have bk: "?bases ! k = 0x20 + sum_list (take k counts)"
    using calls_base[of ?vm counts k] assms(2) k small
    by (simp add: nextFieldAddr_mapVariables)
  have pos: "0 \<le> sum_list (take k counts)"
    using assms(2) by (rule sum_take_nonneg)
  have top: "sum_list (take k counts) + counts ! k \<le> sum_list counts"
    using sum_take_le_total[OF assms(2), of "Suc k"] k by (simp add: sum_take_Suc)
  from lo hi have "1 \<le> counts ! k" by simp
  with pos top have c1: "1 \<le> sum_list counts" by simp
  from hi bk top a have "0x3F - int i < 0x20 + sum_list counts" by simp
  with i have "32 < int (length ?alloc) + sum_list counts" by simp
  with i c1 show ?budget by simp
next
  let ?alloc = "filter (\<lambda>n. \<not> skipped n) variableNames"
  let ?vm = "mapVariables variableNames"
  let ?bases = "fst (allocateFields_calls ?vm counts)"
  assume b: ?budget
  define i where "i = nat (32 - sum_list counts)"
  have i: "i < length ?alloc" unfolding i_def using b by linarith
  have i31: "int i \<le> 31" unfolding i_def using b by linarith
  have ige: "32 - sum_list counts \<le> int i" unfolding i_def by linarith
  let ?a = "0x3F - int i"
  have v: "vars ?vm (?alloc ! i) = Some \<lparr>location = RAM, ramAddr = Some ?a\<rparr>"
    by (rule mapVariables_nth[OF assms(1) i])
  have "0 \<le> 31 - int i" "31 - int i < sum_list counts" using i31 ige by simp_all
  from block_exists[OF assms(2) this] obtain k where k: "k < length counts"
    and lo: "sum_list (take k counts) \<le> 31 - int i"
    and hi: "31 - int i < sum_list (take k counts) + counts ! k"
    by blast
  have small: "0x20 + sum_list (take k counts) \<le> 2 ^ 53" using lo by simp
  have bk: "?bases ! k = 0x20 + sum_list (take k counts)"
    using calls_base[of ?vm counts k] assms(2) k small
    by (simp add: nextFieldAddr_mapVariables)
  have "?a \<in> {?bases ! k ..< ?bases ! k + counts ! k}" using bk lo hi by simp
  with v k show ?overlap
    by (intro exI[of _ "?alloc ! i"] exI[of _ "\<lparr>location = RAM, ramAddr = Some ?a\<rparr>"]
          exI[of _ ?a] exI[of _ k]) (simp add: calls_vars)
qed

theorem allocation_overlap_unchecked_witness:
  "distinct [''n'', ''nf''] \<and> (0::int) \<le> 2 \<and> (0::int) \<le> 3
   \<and> \<not> (\<exists>name m a k.
            vars (snd (allocateFields_calls (mapVariables [''n'', ''nf'']) [2, 3])) name = Some m
            \<and> ramAddr m = Some a \<and> k < length [2, 3 :: int]
            \<and> a \<in> {fst (allocateFields_calls (mapVariables [''n'', ''nf'']) [2, 3]) ! k ..<
                     fst (allocateFields_calls (mapVariables [''n'', ''nf'']) [2, 3]) ! k
                       + [2, 3] ! k})"
proof -
  have d: "distinct [''n'', ''nf'']" by simp
  have h: "\<forall>c \<in> set [2, 3]. (0::int) \<le> c" by simp
  have f: "filter (\<lambda>n. \<not> skipped n) [''n'', ''nf''] = [''n'', ''nf'']"
    by (simp add: skipped_def startsWith_def)
  have nb: "\<not> (1 \<le> length (filter (\<lambda>n. \<not> skipped n) [''n'', ''nf'']) \<and> 1 \<le> sum_list [2, 3 :: int]
          \<and> 32 < int (length (filter (\<lambda>n. \<not> skipped n) [''n'', ''nf''])) + sum_list [2, 3 :: int])"
    unfolding f by simp
  have "\<not> (\<exists>name m a k.
            vars (snd (allocateFields_calls (mapVariables [''n'', ''nf'']) [2, 3])) name = Some m
            \<and> ramAddr m = Some a \<and> k < length [2, 3 :: int]
            \<and> a \<in> {fst (allocateFields_calls (mapVariables [''n'', ''nf'']) [2, 3]) ! k ..<
                     fst (allocateFields_calls (mapVariables [''n'', ''nf'']) [2, 3]) ! k
                       + [2, 3] ! k})"
    using nb allocation_overlap_unchecked[OF d h] by blast
  then show ?thesis using d by simp
qed


section \<open>Properties of the source-map lookup\<close>

lemma find_loop_None:
  "findCubeLocation_loop sm pc best = None \<longleftrightarrow> best = None \<and> (\<forall>e \<in> set sm. \<not> addr e \<le> pc)"
  by (induction sm arbitrary: best) (auto split: option.splits)

lemma find_loop_Some:
  assumes "findCubeLocation_loop sm pc best = Some r"
    and "\<forall>b. best = Some b \<longrightarrow> addr b \<le> pc"
  shows "(best = Some r \<or> r \<in> set sm) \<and> addr r \<le> pc
       \<and> (\<forall>b. best = Some b \<longrightarrow> addr b \<le> addr r)
       \<and> (\<forall>e \<in> set sm. addr e \<le> pc \<longrightarrow> addr e \<le> addr r)"
  using assms
proof (induction sm arbitrary: best)
  case Nil
  then show ?case by simp
next
  case (Cons entry rest)
  show ?case
  proof (cases "addr entry \<le> pc \<and> (case best of None \<Rightarrow> True | Some b \<Rightarrow> addr entry > addr b)")
    case True
    then have "findCubeLocation_loop rest pc (Some entry) = Some r"
      using Cons.prems(1) by simp
    from Cons.IH[OF this] True show ?thesis
      by (auto split: option.splits)
  next
    case False
    then have "findCubeLocation_loop rest pc best = Some r"
      using Cons.prems(1) by (auto split: if_splits)
    from Cons.IH[OF this Cons.prems(2)] False show ?thesis
      by (auto split: option.splits)
  qed
qed


lemma find_None:
  "findCubeLocation sm pc = None \<longleftrightarrow> (\<forall>e \<in> set sm. \<not> addr e \<le> pc)"
  by (simp add: findCubeLocation_def find_loop_None)

lemma find_Some:
  assumes "findCubeLocation sm pc = Some r"
  shows "r \<in> set sm \<and> addr r \<le> pc \<and> (\<forall>e \<in> set sm. addr e \<le> pc \<longrightarrow> addr e \<le> addr r)"
  using find_loop_Some[of sm pc None r] assms by (simp add: findCubeLocation_def)



section \<open>Claims about the source-map lookup\<close>



text \<open>
  Claim C10. \<^verbatim>\<open>findCubeLocation\<close> returns \<^verbatim>\<open>null\<close> exactly when no entry of the source
  map has an address up to \<open>pc\<close>, in particular for the empty source map; otherwise it
  returns an entry of the source map.
\<close>

theorem findCubeLocation_null_iff:
  "(findCubeLocation sourceMap pc = None \<longleftrightarrow> (\<forall>e \<in> set sourceMap. \<not> addr e \<le> pc))
   \<and> findCubeLocation [] pc = None
   \<and> ((\<exists>e \<in> set sourceMap. addr e \<le> pc) \<longrightarrow>
        (\<exists>r. findCubeLocation sourceMap pc = Some r \<and> r \<in> set sourceMap))"
proof -
  have a: "findCubeLocation sourceMap pc = None \<longleftrightarrow> (\<forall>e \<in> set sourceMap. \<not> addr e \<le> pc)"
    by (rule find_None)
  have b: "findCubeLocation [] pc = None" by (simp add: findCubeLocation_def)
  have c: "\<exists>r. findCubeLocation sourceMap pc = Some r \<and> r \<in> set sourceMap"
    if "\<exists>e \<in> set sourceMap. addr e \<le> pc"
  proof -
    from that a obtain r where r: "findCubeLocation sourceMap pc = Some r"
      by (cases "findCubeLocation sourceMap pc") auto
    from find_Some[OF r] have "r \<in> set sourceMap" by simp
    with r show ?thesis by blast
  qed
  show ?thesis using a b c by blast
qed

theorem findCubeLocation_null_iff_witness:
  "\<not> addr \<lparr>addr = 4, label = ''fact'', line = 3\<rparr> \<le> 3
   \<and> \<not> addr \<lparr>addr = 9, label = ''push'', line = 7\<rparr> \<le> 3
   \<and> findCubeLocation [\<lparr>addr = 4, label = ''fact'', line = 3\<rparr>,
                       \<lparr>addr = 9, label = ''push'', line = 7\<rparr>] 3 = None
   \<and> (\<exists>e \<in> set [\<lparr>addr = 4, label = ''fact'', line = 3\<rparr>,
                \<lparr>addr = 9, label = ''push'', line = 7\<rparr>]. addr e \<le> 4)
   \<and> (\<exists>r. findCubeLocation [\<lparr>addr = 4, label = ''fact'', line = 3\<rparr>,
                       \<lparr>addr = 9, label = ''push'', line = 7\<rparr>] 4 = Some r)"
proof -
  let ?sm = "[\<lparr>addr = 4, label = ''fact'', line = 3\<rparr>,
              \<lparr>addr = 9, label = ''push'', line = 7\<rparr>]"
  have h1: "\<forall>e \<in> set ?sm. \<not> addr e \<le> 3" by simp
  have h2: "\<exists>e \<in> set ?sm. addr e \<le> 4" by simp
  have n: "findCubeLocation ?sm 3 = None"
    using h1 findCubeLocation_null_iff[of ?sm 3] by blast
  have r: "\<exists>r. findCubeLocation ?sm 4 = Some r"
    using h2 findCubeLocation_null_iff[of ?sm 4] by blast
  show ?thesis using n r h2 by simp
qed


section \<open>Properties of the base64 functions\<close>

declare add_padding.simps [simp del]

subsection \<open>Alphabet and arithmetic of one group\<close>

lemma distinct_b64chars: "distinct b64chars"
  by (simp add: b64chars_def)

lemma length_b64chars: "length b64chars = 64"
  by (simp add: b64chars_def)

lemma b64dec_b64enc: "i < 64 \<Longrightarrow> b64dec (b64enc i) = Some i"
  unfolding b64dec_def b64enc_def
  using map_of_zip_nth[of b64chars "[0 ..< 64]" i]
  by (simp add: distinct_b64chars length_b64chars)

lemma b64enc_in: "i < 64 \<Longrightarrow> b64enc i \<in> set b64chars"
  by (simp add: b64enc_def length_b64chars)

lemma b64chars_no_eq: "CHR ''='' \<notin> set b64chars"
  by (simp add: b64chars_def)

lemma b64chars_no_url: "CHR ''-'' \<notin> set b64chars" "CHR ''_'' \<notin> set b64chars"
  by (simp_all add: b64chars_def)

lemma b64chars_no_ws: "c \<in> set b64chars \<Longrightarrow> \<not> ascii_whitespace c"
  by (auto simp add: b64chars_def ascii_whitespace_def)

lemma octet_1:
  fixes a b :: nat
  assumes "b < 256"
  shows "(a div 4) * 4 + ((a mod 4) * 16 + b div 16) div 16 = a"
proof -
  have "b div 16 div 16 = 0" using assms by (simp add: div_mult2_eq[symmetric])
  then have "((a mod 4) * 16 + b div 16) div 16 = a mod 4" by simp
  then show ?thesis by simp
qed

lemma octet_2:
  fixes a b c :: nat
  assumes "b < 256" "c < 256"
  shows "(((a mod 4) * 16 + b div 16) mod 16) * 16 + ((b mod 16) * 4 + c div 64) div 4 = b"
proof -
  have "b div 16 < 16" using assms(1) by simp
  then have 1: "((a mod 4) * 16 + b div 16) mod 16 = b div 16" by simp
  have "c div 64 div 4 = 0" using assms(2) by (simp add: div_mult2_eq[symmetric])
  then have 2: "((b mod 16) * 4 + c div 64) div 4 = b mod 16" by simp
  show ?thesis unfolding 1 2 by simp
qed

lemma octet_3:
  fixes b c :: nat
  assumes "c < 256"
  shows "(((b mod 16) * 4 + c div 64) mod 4) * 64 + c mod 64 = c"
proof -
  have "c div 64 < 4" using assms by simp
  then have 1: "((b mod 16) * 4 + c div 64) mod 4 = c div 64" by simp
  show ?thesis unfolding 1 by simp
qed

lemma octet_2':
  fixes a b :: nat
  assumes "b < 256"
  shows "(((a mod 4) * 16 + b div 16) mod 16) * 16 + ((b mod 16) * 4) div 4 = b"
proof -
  have "b div 16 < 16" using assms(1) by simp
  then have 1: "((a mod 4) * 16 + b div 16) mod 16 = b div 16" by simp
  show ?thesis unfolding 1 by simp
qed

lemma octet_1':
  fixes a :: nat
  shows "(a div 4) * 4 + ((a mod 4) * 16) div 16 = a"
  by simp


lemma encode_octets_shape:
  "encode_octets bs = map b64enc (sextets bs) @ replicate (padding bs) (CHR ''='')"
  by (induction bs rule: encode_octets.induct) (simp_all add: numeral_2_eq_2)

lemma padding_le: "padding bs \<le> 2"
  by (induction bs rule: padding.induct) simp_all

lemma length_sextets_padding: "(length (sextets bs) + padding bs) mod 4 = 0"
  by (induction bs rule: sextets.induct) simp_all

lemma length_sextets_mod: "length (sextets bs) mod 4 \<noteq> 1"
  by (induction bs rule: sextets.induct) simp_all

lemma sextets_less:
  "\<forall>b \<in> set bs. b < 256 \<Longrightarrow> \<forall>x \<in> set (sextets bs). x < 64"
proof (induction bs rule: sextets.induct)
  case (1 a b c rest)
  from "1.prems" have "a < 256" "b < 256" "c < 256" by simp_all
  then have "a div 4 < 64" "b div 16 < 16" "c div 64 < 4" by simp_all
  moreover have "a mod 4 < 4" "b mod 16 < 16" "c mod 64 < 64" by simp_all
  ultimately have "a div 4 < 64" "(a mod 4) * 16 + b div 16 < 64"
    "(b mod 16) * 4 + c div 64 < 64" "c mod 64 < 64"
    by linarith+
  then show ?case using 1 by simp
next
  case (2 a b)
  from "2.prems" have "a < 256" "b < 256" by simp_all
  then have "a div 4 < 64" "b div 16 < 16" by simp_all
  moreover have "a mod 4 < 4" "b mod 16 < 16" by simp_all
  ultimately have "a div 4 < 64" "(a mod 4) * 16 + b div 16 < 64" "(b mod 16) * 4 < 64"
    by linarith+
  then show ?case by simp
next
  case (3 a)
  have "a div 4 < 64" using "3.prems" by simp
  moreover have "a mod 4 < 4" by simp
  ultimately have "a div 4 < 64" "(a mod 4) * 16 < 64" by linarith+
  then show ?case by simp
next
  case 4
  then show ?case by simp
qed

lemma decode_sextets_sextets:
  "\<forall>b \<in> set bs. b < 256 \<Longrightarrow> decode_sextets (sextets bs) = map char_of bs"
proof (induction bs rule: sextets.induct)
  case (1 a b c rest)
  then have "b < 256" "c < 256" and IH: "decode_sextets (sextets rest) = map char_of rest"
    by simp_all
  then show ?case
    by (simp add: octet_1 octet_2 octet_3 del: char_of_nat)
next
  case (2 a b)
  then have "b < 256" by simp
  then show ?case by (simp add: octet_1 octet_2' del: char_of_nat)
next
  case (3 a)
  show ?case using octet_1'[of a] by (simp del: char_of_nat)
next
  case 4
  show ?case by simp
qed

lemma those_b64dec:
  "\<forall>x \<in> set xs. x < 64 \<Longrightarrow> those (map b64dec (map b64enc xs)) = Some xs"
  by (induction xs) (simp_all add: b64dec_b64enc)

lemma strip_padding_body:
  assumes "CHR ''='' \<notin> set body" and "p \<le> 2"
  shows "strip_padding (body @ replicate p (CHR ''='')) = body"
proof -
  from assms(2) have "p = 0 \<or> p = 1 \<or> p = 2" by linarith
  then show ?thesis
  proof (elim disjE)
    assume "p = 0"
    then show ?thesis using assms(1)
      by (cases body rule: rev_cases; cases "butlast body" rule: rev_cases)
         (auto simp add: strip_padding_def split: list.splits)
  next
    assume "p = 1"
    then show ?thesis using assms(1)
      by (cases body rule: rev_cases) (auto simp add: strip_padding_def split: list.splits)
  next
    assume "p = 2"
    then show ?thesis
      by (simp add: strip_padding_def numeral_2_eq_2)
  qed
qed

subsection \<open>Decoding what was encoded\<close>

lemma btoa_shape:
  "btoa s = map b64enc (sextets (map of_char s)) @ replicate (padding (map of_char s)) (CHR ''='')"
  by (simp add: btoa_def encode_octets_shape)

lemma body_chars:
  "set (map b64enc (sextets (map of_char (s :: string)))) \<subseteq> set b64chars"
proof -
  have "\<forall>b \<in> set (map of_char s). b < (256 :: nat)" by simp
  then have "\<forall>x \<in> set (sextets (map of_char s)). x < 64" by (rule sextets_less)
  then show ?thesis by (auto simp add: b64enc_in)
qed

lemma filter_ws_id:
  assumes "set body \<subseteq> set b64chars"
  shows "filter (\<lambda>c. \<not> ascii_whitespace c) (body @ replicate p (CHR ''='')) = body @ replicate p (CHR ''='')"
proof -
  have "\<not> ascii_whitespace (CHR ''='')" by (simp add: ascii_whitespace_def)
  moreover have "\<forall>c \<in> set body. \<not> ascii_whitespace c" using assms b64chars_no_ws by blast
  ultimately show ?thesis by simp
qed

lemma atob_btoa: "atob (btoa s) = Inr s"
proof -
  let ?bs = "map of_char s :: nat list"
  let ?sx = "sextets ?bs"
  let ?body = "map b64enc ?sx"
  let ?p = "padding ?bs"
  have bytes: "\<forall>b \<in> set ?bs. b < 256" by simp
  have sx: "\<forall>x \<in> set ?sx. x < 64" using bytes by (rule sextets_less)
  have sub: "set ?body \<subseteq> set b64chars" by (rule body_chars)
  have noeq: "CHR ''='' \<notin> set ?body" using sub b64chars_no_eq by blast
  have shape: "btoa s = ?body @ replicate ?p (CHR ''='')" by (rule btoa_shape)
  have f: "filter (\<lambda>c. \<not> ascii_whitespace c) (btoa s) = ?body @ replicate ?p (CHR ''='')"
    unfolding shape using sub by (rule filter_ws_id)
  have len: "length (?body @ replicate ?p (CHR ''='')) mod 4 = 0"
    using length_sextets_padding[of ?bs] by simp
  have strip: "strip_padding (?body @ replicate ?p (CHR ''='')) = ?body"
    using noeq padding_le by (rule strip_padding_body)
  have len1: "length ?body mod 4 \<noteq> 1" using length_sextets_mod[of ?bs] by simp
  have dec: "those (map b64dec ?body) = Some ?sx" using sx by (rule those_b64dec)
  have out: "decode_sextets ?sx = s"
    using decode_sextets_sextets[OF bytes] by (simp add: comp_def del: char_of_nat)
  show ?thesis
    unfolding atob_def f Let_def using len strip len1 dec out by simp
qed

lemma strip_trailing_eq_body:
  "CHR ''='' \<notin> set body \<Longrightarrow> strip_trailing_eq (body @ replicate p (CHR ''='')) = body"
proof -
  assume a: "CHR ''='' \<notin> set body"
  have "dropWhile (\<lambda>c. c = CHR ''='') (replicate p (CHR ''='') @ rev body) = rev body"
  proof (induction p)
    case 0
    show ?case using a by (cases "rev body") (auto simp add: dropWhile_eq_Cons_conv)
  next
    case (Suc p)
    then show ?case by simp
  qed
  then show ?thesis by (simp add: strip_trailing_eq_def)
qed

lemma replace_all_append:
  "replace_all c d (xs @ ys) = replace_all c d xs @ replace_all c d ys"
  by (simp add: replace_all_def)

lemma replace_all_pad:
  "c \<noteq> CHR ''='' \<Longrightarrow> replace_all c d (replicate p (CHR ''='')) = replicate p (CHR ''='')"
  by (simp add: replace_all_def)

lemma replace_all_no_eq:
  "CHR ''='' \<notin> set xs \<Longrightarrow> d \<noteq> CHR ''='' \<Longrightarrow> CHR ''='' \<notin> set (replace_all c d xs)"
  by (auto simp add: replace_all_def)

lemma url_roundtrip:
  assumes "CHR ''-'' \<notin> set body" and "CHR ''_'' \<notin> set body"
  shows "replace_all (CHR ''_'') (CHR ''/'') (replace_all (CHR ''-'') (CHR ''+'')
           (replace_all (CHR ''/'') (CHR ''_'') (replace_all (CHR ''+'') (CHR ''-'') body))) = body"
  using assms by (induction body) (auto simp add: replace_all_def)

lemma add_padding_restore:
  "(length body + p) mod 4 = 0 \<Longrightarrow> p < 4 \<Longrightarrow> add_padding body = body @ replicate p (CHR ''='')"
proof (induction p arbitrary: body)
  case 0
  then show ?case by (simp add: add_padding.simps[of body])
next
  case (Suc p)
  have ne: "length body mod 4 \<noteq> 0"
  proof
    assume "length body mod 4 = 0"
    then have "Suc p mod 4 = 0" using Suc.prems(1) by (metis mod_add_left_eq add_0)
    then show False using Suc.prems(2) by simp
  qed
  have "(length (body @ ''='') + p) mod 4 = 0" using Suc.prems(1) by simp
  moreover have "p < 4" using Suc.prems(2) by simp
  ultimately have "add_padding (body @ ''='') = (body @ ''='') @ replicate p (CHR ''='')"
    by (rule Suc.IH)
  then show ?case using ne by (simp add: add_padding.simps[of body] replicate_app_Cons_same)
qed

lemma toBase64url_loop_eq:
  "toBase64url_loop bytes binary = binary @ map (\<lambda>b. char_of (unat b)) bytes"
  by (induction bytes arbitrary: binary) simp_all

lemma fromBase64url_loop_eq:
  "fromBase64url_loop binary = map (\<lambda>c. word_of_nat (of_char c)) binary"
  by (induction binary) simp_all

lemma byte_char_roundtrip: "word_of_nat (of_char (char_of (unat (b :: 8 word)))) = b"
proof -
  have "unat b < 256" using unsigned_less[of b, where ?'a = nat] by simp
  then show ?thesis by simp
qed


section \<open>Claim about URL source sharing\<close>

text \<open>
  Claim C9. For every byte array \<open>b\<close>, \<^verbatim>\<open>fromBase64url(toBase64url(b))\<close> returns, without
  an exception, a byte array equal to \<open>b\<close>: the same length and the same elements.
\<close>

theorem base64url_roundtrip: "fromBase64url (toBase64url bytes) = Inr bytes"
proof -
  let ?binary = "toBase64url_loop bytes []"
  let ?bs = "map of_char ?binary :: nat list"
  let ?body = "map b64enc (sextets ?bs)"
  let ?p = "padding ?bs"
  let ?url = "replace_all (CHR ''/'') (CHR ''_'') (replace_all (CHR ''+'') (CHR ''-'') ?body)"
  have sub: "set ?body \<subseteq> set b64chars" by (rule body_chars)
  have noeq: "CHR ''='' \<notin> set ?body" using sub b64chars_no_eq by blast
  have nourl: "CHR ''-'' \<notin> set ?body" "CHR ''_'' \<notin> set ?body"
    using sub b64chars_no_url by blast+
  have shape: "btoa ?binary = ?body @ replicate ?p (CHR ''='')" by (rule btoa_shape)
  have "CHR ''='' \<notin> set ?url" using noeq by (simp add: replace_all_no_eq)
  then have enc: "toBase64url bytes = ?url"
    unfolding toBase64url_def shape
    by (simp add: replace_all_append replace_all_pad strip_trailing_eq_body)
  have unurl: "replace_all (CHR ''_'') (CHR ''/'') (replace_all (CHR ''-'') (CHR ''+'') ?url) = ?body"
    using nourl by (rule url_roundtrip)
  have "(length ?body + ?p) mod 4 = 0" using length_sextets_padding[of ?bs] by simp
  moreover have "?p < 4" using padding_le[of ?bs] by simp
  ultimately have pad: "add_padding ?body = btoa ?binary"
    unfolding shape by (rule add_padding_restore)
  have "fromBase64url (toBase64url bytes) = Inr (fromBase64url_loop ?binary)"
    unfolding fromBase64url_def enc Let_def unurl pad atob_btoa by simp
  also have "fromBase64url_loop ?binary = bytes"
  proof -
    have "fromBase64url_loop ?binary
            = map (\<lambda>b. word_of_nat (of_char (char_of (unat b)))) bytes"
      by (simp only: fromBase64url_loop_eq toBase64url_loop_eq append_Nil map_map comp_def)
    also have "\<dots> = bytes" by (simp only: byte_char_roundtrip map_ident)
    finally show ?thesis .
  qed
  finally show ?thesis .
qed

end
